theory Spec2Isabelle
  imports Complex_Main "HOL-Library.Log_Nat"
begin

section \<open>Python values, floats and exceptions\<close>

text \<open>
  The processor of stock-backtest-liquidity (\<^verbatim>\<open>src/app/processor.py\<close>) is two
  functions over \<^verbatim>\<open>dict[str, Any]\<close>. Its arithmetic is Python's: unbounded
  integers and IEEE 754 binary64 floats. A float is modelled by the exact rational it
  denotes (\<open>Fin q\<close>), negative zero, the two infinities and NaN; every operation
  computes the exact rational result and rounds it once to binary64 with
  round-to-nearest, ties-to-even, as the hardware and CPython do.
\<close>

datatype pyfloat = Fin rat | NegZero | PosInf | NegInf | NaN

datatype pyval =
    PNone
  | PBool bool
  | PInt int
  | PFloat pyfloat
  | PStr string
  | PList "pyval list"
  | PDict "string \<Rightarrow> pyval option"

type_synonym message = "string \<Rightarrow> pyval option"

text \<open>
  \<open>ValueError text\<close> is \<^verbatim>\<open>raise ValueError(text)\<close> written in the source. The
  other three are the exceptions the interpreter's built-ins raise (\<^verbatim>\<open>int()\<close>,
  \<^verbatim>\<open>float()\<close>, \<^verbatim>\<open>/\<close>, \<^verbatim>\<open>round()\<close>); their message text is not modelled.
\<close>

datatype py_error =
    ValueError string
  | Builtin_ValueError
  | Builtin_TypeError
  | Builtin_OverflowError

text \<open>
  The logger is a side channel: a call appends one record (level, format text, arguments,
  left unformatted as \<^verbatim>\<open>logging\<close> does). The emoji that starts each format text in
  the source is left out of the text here.
\<close>

datatype log_level = DEBUG | INFO | ERROR

type_synonym log_record = "log_level \<times> string \<times> pyval list"

subsection \<open>Rounding a rational to binary64\<close>

definition pow2 :: "int \<Rightarrow> rat" where
  "pow2 k = (if 0 \<le> k then 2 ^ nat k else 1 / 2 ^ nat (- k))"

text \<open>\<open>ilog2 a\<close> is \<open>\<lfloor>log\<^sub>2 a\<rfloor>\<close> for a positive rational, from the bit lengths of
  numerator and denominator.\<close>

definition ilog2 :: "rat \<Rightarrow> int" where
  "ilog2 a = (let k = bitlen (fst (quotient_of a)) - bitlen (snd (quotient_of a))
              in if pow2 k \<le> a then k else k - 1)"

definition round_half_even :: "rat \<Rightarrow> int" where
  "round_half_even x =
     (let f = \<lfloor>x\<rfloor>; d = x - of_int f
      in if d < 1 / 2 then f
         else if 1 / 2 < d then f + 1
         else if even f then f else f + 1)"

text \<open>
  binary64 has 53 significant bits, least exponent \<open>-1074\<close> (subnormals) and overflows
  at \<open>2 ^ 1024\<close>. \<open>float_exponent a\<close> is the exponent of the unit in the last place
  at the positive rational \<open>a\<close>, \<open>round_magnitude a\<close> the nearest multiple of that unit,
  ties to the even multiple. The sign of a result that rounds to zero is kept.
\<close>

definition float_exponent :: "rat \<Rightarrow> int" where
  "float_exponent a = max (ilog2 a - 52) (- 1074)"

definition round_magnitude :: "rat \<Rightarrow> rat" where
  "round_magnitude a =
     of_int (round_half_even (a / pow2 (float_exponent a))) * pow2 (float_exponent a)"

definition round64 :: "rat \<Rightarrow> pyfloat" where
  "round64 q =
     (if q = 0 then Fin 0
      else let v = round_magnitude \<bar>q\<bar>
           in if 2 ^ 1024 \<le> v then (if 0 < q then PosInf else NegInf)
              else if v = 0 then (if 0 < q then Fin 0 else NegZero)
              else Fin (if 0 < q then v else - v))"

subsection \<open>Float operations\<close>

text \<open>\<^verbatim>\<open>x + y\<close> on floats (IEEE 754 addition): the exact sum, rounded. The sum of two
  negative zeros is the negative zero; a negative zero added to another float is that
  float (its value rounded, and a float is its own rounding).\<close>

fun fadd :: "pyfloat \<Rightarrow> pyfloat \<Rightarrow> pyfloat" where
  "fadd NaN _ = NaN"
| "fadd _ NaN = NaN"
| "fadd PosInf NegInf = NaN"
| "fadd NegInf PosInf = NaN"
| "fadd PosInf _ = PosInf"
| "fadd _ PosInf = PosInf"
| "fadd NegInf _ = NegInf"
| "fadd _ NegInf = NegInf"
| "fadd NegZero NegZero = NegZero"
| "fadd NegZero (Fin b) = round64 b"
| "fadd (Fin a) NegZero = round64 a"
| "fadd (Fin a) (Fin b) = round64 (a + b)"

text \<open>\<^verbatim>\<open>x / y\<close> on floats (IEEE 754 division), for a finite nonzero divisor; Python
  raises ZeroDivisionError on a zero divisor, which no call here has.\<close>

fun fdiv :: "pyfloat \<Rightarrow> rat \<Rightarrow> pyfloat" where
  "fdiv NaN _ = NaN"
| "fdiv PosInf d = (if 0 < d then PosInf else NegInf)"
| "fdiv NegInf d = (if 0 < d then NegInf else PosInf)"
| "fdiv NegZero d = (if 0 < d then NegZero else Fin 0)"
| "fdiv (Fin a) d = (if a = 0 then (if 0 < d then Fin 0 else NegZero) else round64 (a / d))"

text \<open>\<^verbatim>\<open>a / b\<close> on two ints, \<open>b > 0\<close>: the exact quotient rounded once; OverflowError
  ("integer division result too large for a float") beyond the float range.\<close>

definition int_true_div :: "int \<Rightarrow> int \<Rightarrow> py_error + pyfloat" where
  "int_true_div a b =
     (case round64 (of_int a / of_int b) of
        PosInf \<Rightarrow> Inl Builtin_OverflowError
      | NegInf \<Rightarrow> Inl Builtin_OverflowError
      | f \<Rightarrow> Inr f)"

text \<open>\<^verbatim>\<open>float(n)\<close> for an int: rounded to nearest; OverflowError ("int too large to
  convert to float") beyond the float range.\<close>

definition float_of_int :: "int \<Rightarrow> py_error + pyfloat" where
  "float_of_int n =
     (case round64 (of_int n) of
        PosInf \<Rightarrow> Inl Builtin_OverflowError
      | NegInf \<Rightarrow> Inl Builtin_OverflowError
      | f \<Rightarrow> Inr f)"


fun fle :: "pyfloat \<Rightarrow> pyfloat \<Rightarrow> bool" where
  "fle NaN _ = False"
| "fle _ NaN = False"
| "fle NegInf _ = True"
| "fle _ PosInf = True"
| "fle PosInf _ = False"
| "fle _ NegInf = False"
| "fle NegZero NegZero = True"
| "fle NegZero (Fin b) = (0 \<le> b)"
| "fle (Fin a) NegZero = (a \<le> 0)"
| "fle (Fin a) (Fin b) = (a \<le> b)"

definition flt :: "pyfloat \<Rightarrow> pyfloat \<Rightarrow> bool" where
  "flt x y = (fle x y \<and> \<not> fle y x)"

text \<open>
  \<^verbatim>\<open>round(x, ndigits)\<close> on a float (CPython's \<^verbatim>\<open>double_round\<close>): NaN and the
  infinities round to themselves; otherwise the exact value is rounded to \<open>ndigits\<close>
  decimals, ties to even, and the decimal is converted back to the nearest float;
  OverflowError if that conversion overflows.
\<close>

definition round_decimal :: "rat \<Rightarrow> nat \<Rightarrow> rat" where
  "round_decimal q ndigits = of_int (round_half_even (q * 10 ^ ndigits)) / 10 ^ ndigits"

definition py_round :: "pyfloat \<Rightarrow> nat \<Rightarrow> py_error + pyfloat" where
  "py_round x ndigits =
     (case x of
        Fin q \<Rightarrow>
          if 323 < ndigits then Inr x
          else let d = round_decimal q ndigits
               in if d = 0 then Inr (if q < 0 then NegZero else Fin 0)
                  else (case round64 d of
                          PosInf \<Rightarrow> Inl Builtin_OverflowError
                        | NegInf \<Rightarrow> Inl Builtin_OverflowError
                        | f \<Rightarrow> Inr f)
      | _ \<Rightarrow> Inr x)"

subsection \<open>Parsing numbers from text\<close>

text \<open>
  \<^verbatim>\<open>int(s)\<close> and \<^verbatim>\<open>float(s)\<close> on a \<^verbatim>\<open>str\<close>, for ASCII text: surrounding
  whitespace is skipped, one sign is allowed, and a single underscore may stand between
  two digits. \<open>underscores_ok\<close> is the loop of CPython's
  \<^verbatim>\<open>_Py_string_to_number_with_underscores\<close>, started with a NUL as the previous
  character.
\<close>

definition is_space :: "char \<Rightarrow> bool" where
  "is_space c = (c \<in> set [CHR '' '', CHR 0x09, CHR 0x0A, CHR 0x0B, CHR 0x0C, CHR 0x0D])"

definition strip :: "string \<Rightarrow> string" where
  "strip s = rev (dropWhile is_space (rev (dropWhile is_space s)))"

definition is_digit :: "char \<Rightarrow> bool" where
  "is_digit c = (48 \<le> (of_char c :: nat) \<and> (of_char c :: nat) \<le> 57)"

definition digit_val :: "char \<Rightarrow> nat" where
  "digit_val c = of_char c - 48"

definition nat_of_digits :: "string \<Rightarrow> nat" where
  "nat_of_digits ds = foldl (\<lambda>n c. 10 * n + digit_val c) 0 ds"

definition to_lower :: "char \<Rightarrow> char" where
  "to_lower c = (if 65 \<le> (of_char c :: nat) \<and> (of_char c :: nat) \<le> 90
                 then char_of ((of_char c :: nat) + 32) else c)"

fun underscores_ok :: "char \<Rightarrow> string \<Rightarrow> bool" where
  "underscores_ok prev [] = (prev \<noteq> CHR ''_'')"
| "underscores_ok prev (c # cs) =
     ((if c = CHR ''_'' then is_digit prev else (prev = CHR ''_'' \<longrightarrow> is_digit c))
      \<and> underscores_ok c cs)"

definition split_sign :: "string \<Rightarrow> bool \<times> string" where
  "split_sign s =
     (case s of
        [] \<Rightarrow> (False, [])
      | c # cs \<Rightarrow> if c = CHR ''-'' then (True, cs)
                  else if c = CHR ''+'' then (False, cs) else (False, s))"

text \<open>The interpreter refuses a decimal literal of more than 4300 digits (the default
  of \<^verbatim>\<open>sys.get_int_max_str_digits()\<close>).\<close>

definition int_max_str_digits :: nat where
  "int_max_str_digits = 4300"

definition int_of_str :: "string \<Rightarrow> int option" where
  "int_of_str s =
     (let (neg, body) = split_sign (strip s);
          ds = filter (\<lambda>c. c \<noteq> CHR ''_'') body
      in if ds \<noteq> [] \<and> list_all (\<lambda>c. is_digit c \<or> c = CHR ''_'') body
            \<and> underscores_ok (CHR 0x00) body \<and> length ds \<le> int_max_str_digits
         then Some (if neg then - int (nat_of_digits ds) else int (nat_of_digits ds))
         else None)"

text \<open>An unsigned decimal literal: digits, an optional fraction, an optional exponent;
  at least one digit before the exponent.\<close>

definition decimal_of_str :: "string \<Rightarrow> rat option" where
  "decimal_of_str s =
     (let ip = takeWhile is_digit s; r1 = dropWhile is_digit s;
          (fp, r2) = (case r1 of
                        [] \<Rightarrow> ([], r1)
                      | c # t \<Rightarrow> if c = CHR ''.'' then (takeWhile is_digit t, dropWhile is_digit t)
                                 else ([], r1));
          mant = of_nat (nat_of_digits (ip @ fp)) / 10 ^ length fp
      in if ip = [] \<and> fp = [] then None
         else (case r2 of
                 [] \<Rightarrow> Some mant
               | c # t \<Rightarrow>
                   if c = CHR ''e'' \<or> c = CHR ''E''
                   then (let (neg, ed) = split_sign t
                         in if ed = [] \<or> \<not> list_all is_digit ed then None
                            else Some (if neg then mant / 10 ^ nat_of_digits ed
                                       else mant * 10 ^ nat_of_digits ed))
                   else None))"

definition float_of_str :: "string \<Rightarrow> pyfloat option" where
  "float_of_str s =
     (let t = strip s
      in if \<not> underscores_ok (CHR 0x00) t then None
         else let (neg, body) = split_sign (filter (\<lambda>c. c \<noteq> CHR ''_'') t);
                  low = map to_lower body
              in if low = ''inf'' \<or> low = ''infinity'' then Some (if neg then NegInf else PosInf)
                 else if low = ''nan'' then Some NaN
                 else (case decimal_of_str body of
                         None \<Rightarrow> None
                       | Some q \<Rightarrow>
                           Some (if q = 0 then (if neg then NegZero else Fin 0)
                                 else round64 (if neg then - q else q))))"

subsection \<open>The built-ins \<^verbatim>\<open>int()\<close>, \<^verbatim>\<open>float()\<close> and \<^verbatim>\<open>dict.get\<close>\<close>

text \<open>\<^verbatim>\<open>int(x)\<close>: a float is truncated toward zero; infinity raises OverflowError,
  NaN and unparsable text ValueError, None and containers TypeError.\<close>

fun py_int :: "pyval \<Rightarrow> py_error + int" where
  "py_int (PInt n) = Inr n"
| "py_int (PBool b) = Inr (if b then 1 else 0)"
| "py_int (PFloat (Fin q)) = Inr (if 0 \<le> q then \<lfloor>q\<rfloor> else \<lceil>q\<rceil>)"
| "py_int (PFloat NegZero) = Inr 0"
| "py_int (PFloat PosInf) = Inl Builtin_OverflowError"
| "py_int (PFloat NegInf) = Inl Builtin_OverflowError"
| "py_int (PFloat NaN) = Inl Builtin_ValueError"
| "py_int (PStr s) = (case int_of_str s of None \<Rightarrow> Inl Builtin_ValueError | Some n \<Rightarrow> Inr n)"
| "py_int PNone = Inl Builtin_TypeError"
| "py_int (PList xs) = Inl Builtin_TypeError"
| "py_int (PDict d) = Inl Builtin_TypeError"

fun py_float :: "pyval \<Rightarrow> py_error + pyfloat" where
  "py_float (PFloat x) = Inr x"
| "py_float (PInt n) = float_of_int n"
| "py_float (PBool b) = Inr (Fin (if b then 1 else 0))"
| "py_float (PStr s) = (case float_of_str s of None \<Rightarrow> Inl Builtin_ValueError | Some x \<Rightarrow> Inr x)"
| "py_float PNone = Inl Builtin_TypeError"
| "py_float (PList xs) = Inl Builtin_TypeError"
| "py_float (PDict d) = Inl Builtin_TypeError"

definition dict_get :: "message \<Rightarrow> string \<Rightarrow> pyval \<Rightarrow> pyval" where
  "dict_get d k dflt = (case d k of None \<Rightarrow> dflt | Some v \<Rightarrow> v)"

section \<open>The processor\<close>

text \<open>
  \<^verbatim>\<open>validate_input_message\<close>. The schema predicate \<^verbatim>\<open>validate_message_schema\<close>
  is imported from \<^verbatim>\<open>app.utils.validate_data\<close>, which is not part of the sources at
  hand: it is a parameter. The result is the log records written and either the
  exception raised or the value returned.
\<close>

definition validate_input_message ::
  "(message \<Rightarrow> bool) \<Rightarrow> message \<Rightarrow> log_record list \<times> (py_error + message)" where
  "validate_input_message validate_message_schema message =
     (let log1 = [(DEBUG, ''Validating message schema...'', [])]
      in if \<not> validate_message_schema message
         then (log1 @ [(ERROR, ''Invalid message schema: %s'', [PDict message])],
               Inl (ValueError ''Invalid message format''))
         else (log1, Inr message))"


subsection \<open>A sample schema\<close>

text \<open>The schema predicate is a parameter of the validator. The examples below
  instantiate it with a predicate that accepts the messages that have a \<^verbatim>\<open>symbol\<close>.\<close>

definition requires_symbol :: "message \<Rightarrow> bool" where
  "requires_symbol m = (m ''symbol'' \<noteq> None)"

subsection \<open>The specification's wording of the score and of the rounding\<close>

text \<open>
  The score as the specification writes it, \<^verbatim>\<open>(avg_volume / 1_000_000.0) + turnover_ratio\<close>:
  dividing an int by a float literal, Python first converts the int to a float (one
  rounding, OverflowError beyond the float range) and then divides two floats (a second
  rounding). The coercions and defaults are those of the source.
\<close>

definition spec_score :: "message \<Rightarrow> py_error + pyfloat" where
  "spec_score message =
     (case py_int (dict_get message ''avg_volume'' (PInt 1000000)) of
        Inl e \<Rightarrow> Inl e
      | Inr avg_volume \<Rightarrow>
     (case py_float (dict_get message ''turnover_ratio'' (PFloat (round64 (8 / 10)))) of
        Inl e \<Rightarrow> Inl e
      | Inr turnover_ratio \<Rightarrow>
     (case float_of_int avg_volume of
        Inl e \<Rightarrow> Inl e
      | Inr f \<Rightarrow> Inr (fadd (fdiv f 1000000) turnover_ratio))))"

text \<open>
  \<open>d\<close> is \<open>q\<close> rounded to \<open>n\<close> decimal places, half to even: \<open>d\<close> is a multiple of
  \<open>10\<^sup>-\<^sup>n\<close>, no further than half a unit of the last place from \<open>q\<close>, and the even
  multiple when \<open>q\<close> lies exactly halfway between two.
\<close>

definition is_half_even_rounding :: "rat \<Rightarrow> nat \<Rightarrow> rat \<Rightarrow> bool" where
  "is_half_even_rounding q n d =
     (let k = \<lfloor>d * 10 ^ n\<rfloor>; err = \<bar>q * 10 ^ n - of_int k\<bar>
      in of_int k = d * 10 ^ n \<and> err \<le> 1 / 2 \<and> (err = 1 / 2 \<longrightarrow> even k))"

section \<open>Properties of the float model\<close>

subsection \<open>Powers of two and the binary logarithm\<close>

lemma pow2_pos: "0 < pow2 k"
  by (simp add: pow2_def)

lemma pow2_powi: "pow2 k = 2 powi k"
  by (simp add: pow2_def power_int_def field_simps)

lemma pow2_add: "pow2 (a + b) = pow2 a * pow2 b"
  by (simp add: pow2_powi power_int_add)

lemma pow2_mono: "a \<le> b \<Longrightarrow> pow2 a \<le> pow2 b"
  by (simp add: pow2_powi power_int_increasing)

lemma pow2_less_cancel: "pow2 a < pow2 b \<Longrightarrow> a < b"
  using pow2_mono [of b a] by (cases "a < b") auto

lemma pow2_nat: "pow2 (int n) = 2 ^ n"
  by (simp add: pow2_def)

lemma pow2_52: "pow2 52 = 2 ^ 52"
  by (simp add: pow2_def)

lemma pow2_53: "pow2 53 = 2 ^ 53"
  by (simp add: pow2_def)

lemma ilog2_bounds:
  assumes "0 < a"
  shows "pow2 (ilog2 a) \<le> a \<and> a < pow2 (ilog2 a + 1)"
proof -
  obtain p d where pd: "quotient_of a = (p, d)" by (cases "quotient_of a")
  have d: "0 < d" using pd by (rule quotient_of_denom_pos)
  have a: "a = of_int p / of_int d" using pd by (rule quotient_of_div)
  have p: "0 < p" using assms d a by (simp add: zero_less_divide_iff)
  define bp where "bp = bitlen p"
  define bd where "bd = bitlen d"
  have bp: "2 ^ nat (bp - 1) \<le> p" "p < 2 ^ nat bp"
    using bitlen_bounds [OF p] by (simp_all add: bp_def)
  have bd: "2 ^ nat (bd - 1) \<le> d" "d < 2 ^ nat bd"
    using bitlen_bounds [OF d] by (simp_all add: bd_def)
  have bp1: "1 \<le> bp" using p bitlen_eq_zero_iff [of p] bitlen_nonneg [of p]
    by (simp add: bp_def)
  have bd1: "1 \<le> bd" using d bitlen_eq_zero_iff [of d] bitlen_nonneg [of d]
    by (simp add: bd_def)
  have P1: "pow2 (bp - 1) \<le> of_int p"
  proof -
    have "(of_int (2 ^ nat (bp - 1)) :: rat) \<le> of_int p" using bp(1) by (simp only: of_int_le_iff)
    then show ?thesis using bp1 by (simp add: pow2_def)
  qed
  have P2: "of_int p < pow2 bp"
  proof -
    have "(of_int p :: rat) < of_int (2 ^ nat bp)" using bp(2) by (simp only: of_int_less_iff)
    then show ?thesis using bp1 by (simp add: pow2_def)
  qed
  have D1: "pow2 (bd - 1) \<le> of_int d"
  proof -
    have "(of_int (2 ^ nat (bd - 1)) :: rat) \<le> of_int d" using bd(1) by (simp only: of_int_le_iff)
    then show ?thesis using bd1 by (simp add: pow2_def)
  qed
  have D2: "of_int d < pow2 bd"
  proof -
    have "(of_int d :: rat) < of_int (2 ^ nat bd)" using bd(2) by (simp only: of_int_less_iff)
    then show ?thesis using bd1 by (simp add: pow2_def)
  qed
  have dpos: "(0::rat) < of_int d" using d by simp
  define k where "k = bp - bd"
  have up: "a < pow2 (k + 1)"
  proof -
    have "of_int p < pow2 (k + 1) * pow2 (bd - 1)"
      using P2 by (simp add: pow2_add [symmetric] k_def)
    also have "\<dots> \<le> pow2 (k + 1) * of_int d"
      using D1 pow2_pos [of "k + 1"] by simp
    finally show ?thesis using dpos by (simp add: a pos_divide_less_eq)
  qed
  have lo: "pow2 (k - 1) \<le> a"
  proof -
    have "pow2 (k - 1) * of_int d \<le> pow2 (k - 1) * pow2 bd"
      using D2 pow2_pos [of "k - 1"] by simp
    also have "\<dots> = pow2 (bp - 1)" by (simp add: pow2_add [symmetric] k_def)
    also have "\<dots> \<le> of_int p" by (rule P1)
    finally show ?thesis using dpos by (simp add: a pos_le_divide_eq)
  qed
  have il: "ilog2 a = (if pow2 k \<le> a then k else k - 1)"
    by (simp add: ilog2_def pd k_def bp_def bd_def Let_def)
  show ?thesis
  proof (cases "pow2 k \<le> a")
    case True
    then show ?thesis using up il by simp
  next
    case False
    then show ?thesis using lo il by simp
  qed
qed

lemma ilog2_mono:
  assumes "0 < a" "a \<le> b"
  shows "ilog2 a \<le> ilog2 b"
proof -
  have "pow2 (ilog2 a) \<le> a" using ilog2_bounds [OF assms(1)] by simp
  also have "a \<le> b" by fact
  also have "b < pow2 (ilog2 b + 1)" using ilog2_bounds [of b] assms by simp
  finally have "ilog2 a < ilog2 b + 1" by (rule pow2_less_cancel)
  then show ?thesis by simp
qed

subsection \<open>Rounding is monotone\<close>

lemma round_half_even_bounds:
  "\<lfloor>x\<rfloor> \<le> round_half_even x \<and> round_half_even x \<le> \<lfloor>x\<rfloor> + 1"
  by (simp add: round_half_even_def Let_def)

lemma round_half_even_of_int [simp]: "round_half_even (of_int n) = n"
  by (simp add: round_half_even_def)

lemma round_half_even_mono:
  assumes "x \<le> y"
  shows "round_half_even x \<le> round_half_even y"
proof (cases "\<lfloor>x\<rfloor> = \<lfloor>y\<rfloor>")
  case True
  with assms show ?thesis
    by (auto simp: round_half_even_def Let_def)
next
  case False
  with assms have "\<lfloor>x\<rfloor> + 1 \<le> \<lfloor>y\<rfloor>" using floor_mono [OF assms] by linarith
  then show ?thesis
    using round_half_even_bounds [of x] round_half_even_bounds [of y] by linarith
qed

lemma round_half_even_le: "x \<le> of_int n \<Longrightarrow> round_half_even x \<le> n"
  using round_half_even_mono [of x "of_int n"] by simp

lemma round_half_even_ge: "of_int n \<le> x \<Longrightarrow> n \<le> round_half_even x"
  using round_half_even_mono [of "of_int n" x] by simp

lemma round_magnitude_nonneg: "0 \<le> a \<Longrightarrow> 0 \<le> round_magnitude a"
  using round_half_even_ge [of 0 "a / pow2 (float_exponent a)"] pow2_pos [of "float_exponent a"]
  by (simp add: round_magnitude_def)

lemma float_exponent_mono: "0 < a \<Longrightarrow> a \<le> b \<Longrightarrow> float_exponent a \<le> float_exponent b"
  using ilog2_mono [of a b] by (simp add: float_exponent_def)

lemma round_magnitude_upper:
  assumes "0 < a"
  shows "round_magnitude a \<le> pow2 (float_exponent a + 53)"
proof -
  define e where "e = float_exponent a"
  have "a < pow2 (ilog2 a + 1)" using ilog2_bounds [OF assms] by simp
  also have "\<dots> \<le> pow2 (e + 53)" by (rule pow2_mono) (simp add: e_def float_exponent_def)
  also have "\<dots> = 2 ^ 53 * pow2 e" by (simp add: pow2_add pow2_53)
  finally have "a / pow2 e \<le> of_int (2 ^ 53)" using pow2_pos [of e] by (simp add: pos_divide_le_eq)
  then have "round_half_even (a / pow2 e) \<le> 2 ^ 53" by (rule round_half_even_le)
  then have "(of_int (round_half_even (a / pow2 e)) :: rat) \<le> of_int (2 ^ 53)"
    by (simp only: of_int_le_iff)
  then have "of_int (round_half_even (a / pow2 e)) * pow2 e \<le> 2 ^ 53 * pow2 e"
    using pow2_pos [of e] by simp
  then show ?thesis by (simp add: round_magnitude_def e_def pow2_add pow2_53)
qed

lemma round_magnitude_lower:
  assumes "0 < a" and "- 1074 < float_exponent a"
  shows "pow2 (float_exponent a + 52) \<le> round_magnitude a"
proof -
  define e where "e = float_exponent a"
  have e: "e = ilog2 a - 52" using assms(2) by (simp add: e_def float_exponent_def)
  have "2 ^ 52 * pow2 e = pow2 (e + 52)" by (simp add: pow2_add pow2_52)
  also have "\<dots> \<le> a" using ilog2_bounds [OF assms(1)] by (simp add: e)
  finally have "of_int (2 ^ 52) \<le> a / pow2 e" using pow2_pos [of e] by (simp add: pos_le_divide_eq)
  then have "2 ^ 52 \<le> round_half_even (a / pow2 e)" by (rule round_half_even_ge)
  then have "(of_int (2 ^ 52) :: rat) \<le> of_int (round_half_even (a / pow2 e))"
    by (simp only: of_int_le_iff)
  then have "2 ^ 52 * pow2 e \<le> of_int (round_half_even (a / pow2 e)) * pow2 e"
    using pow2_pos [of e] by simp
  then show ?thesis by (simp add: round_magnitude_def e_def pow2_add pow2_52)
qed

lemma round_magnitude_mono:
  assumes "0 < a" and "a \<le> b"
  shows "round_magnitude a \<le> round_magnitude b"
proof (cases "float_exponent a = float_exponent b")
  case True
  have "a / pow2 (float_exponent b) \<le> b / pow2 (float_exponent b)"
    using assms(2) pow2_pos [of "float_exponent b"] by (simp add: divide_right_mono)
  then have "round_half_even (a / pow2 (float_exponent b)) \<le> round_half_even (b / pow2 (float_exponent b))"
    by (rule round_half_even_mono)
  then show ?thesis
    using pow2_pos [of "float_exponent b"] by (simp add: round_magnitude_def True)
next
  case False
  then have lt: "float_exponent a + 1 \<le> float_exponent b"
    using float_exponent_mono [OF assms] by simp
  have b: "0 < b" using assms by simp
  have "- 1074 \<le> float_exponent a" by (simp add: float_exponent_def)
  then have "- 1074 < float_exponent b" using lt by simp
  then have "pow2 (float_exponent b + 52) \<le> round_magnitude b"
    using round_magnitude_lower [OF b] by simp
  moreover have "round_magnitude a \<le> pow2 (float_exponent a + 53)"
    by (rule round_magnitude_upper [OF assms(1)])
  moreover have "pow2 (float_exponent a + 53) \<le> pow2 (float_exponent b + 52)"
    by (rule pow2_mono) (use lt in simp)
  ultimately show ?thesis by linarith
qed

lemma round64_pos:
  "0 < q \<Longrightarrow> round64 q = (if 2 ^ 1024 \<le> round_magnitude q then PosInf else Fin (round_magnitude q))"
  by (simp add: round64_def Let_def)

lemma round64_neg:
  "q < 0 \<Longrightarrow> round64 q =
     (if 2 ^ 1024 \<le> round_magnitude (- q) then NegInf
      else if round_magnitude (- q) = 0 then NegZero else Fin (- round_magnitude (- q)))"
  by (simp add: round64_def Let_def abs_if)

lemma round64_not_NaN [simp]: "round64 q \<noteq> NaN"
  by (simp add: round64_def Let_def)

lemma round64_mono:
  assumes "x \<le> y"
  shows "fle (round64 x) (round64 y)"
proof -
  consider "0 < x" | "y < 0" | "x \<le> 0" "0 \<le> y" by linarith
  then show ?thesis
  proof cases
    case 1
    then have y: "0 < y" using assms by simp
    have "round_magnitude x \<le> round_magnitude y" using 1 assms by (rule round_magnitude_mono)
    then show ?thesis by (simp add: round64_pos 1 y)
  next
    case 2
    then have x: "x < 0" using assms by simp
    have "round_magnitude (- y) \<le> round_magnitude (- x)"
      using 2 assms by (intro round_magnitude_mono) simp_all
    moreover have "0 \<le> round_magnitude (- y)" "0 \<le> round_magnitude (- x)"
      using 2 x by (simp_all add: round_magnitude_nonneg)
    ultimately show ?thesis by (simp add: round64_neg 2 x)
  next
    case 3
    have lo: "fle (round64 x) (Fin 0)"
    proof (cases "x = 0")
      case True then show ?thesis by (simp add: round64_def)
    next
      case False
      then have x: "x < 0" using 3 by simp
      have "0 \<le> round_magnitude (- x)" using x by (simp add: round_magnitude_nonneg)
      then show ?thesis by (simp add: round64_neg x)
    qed
    have hi: "fle (Fin 0) (round64 y)"
    proof (cases "y = 0")
      case True then show ?thesis by (simp add: round64_def)
    next
      case False
      then have y: "0 < y" using 3 by simp
      have "0 \<le> round_magnitude y" using y by (simp add: round_magnitude_nonneg)
      then show ?thesis by (simp add: round64_pos y)
    qed
    from lo hi show ?thesis
      by (cases "round64 x"; cases "round64 y") simp_all
  qed
qed

lemma fle_NegInf [simp]: "fle NegInf v \<longleftrightarrow> v \<noteq> NaN"
  by (cases v) simp_all

lemma fle_PosInf [simp]: "fle v PosInf \<longleftrightarrow> v \<noteq> NaN"
  by (cases v) simp_all

lemma fle_NegZero_left: "fle NegZero v \<longleftrightarrow> fle (Fin 0) v"
  by (cases v) simp_all

lemma fle_NegZero_right: "fle v NegZero \<longleftrightarrow> fle v (Fin 0)"
  by (cases v) simp_all

lemma fle_refl: "v \<noteq> NaN \<Longrightarrow> fle v v"
  by (cases v) simp_all

lemma not_flt_if_fle: "fle x y \<Longrightarrow> \<not> flt y x"
  by (simp add: flt_def)

lemma not_flt_NaN [simp]: "\<not> flt NaN v" "\<not> flt v NaN"
  by (cases v; simp add: flt_def)+

lemma round64_nonneg: "0 \<le> q \<Longrightarrow> fle (Fin 0) (round64 q)"
  using round64_mono [of 0 q] by (simp add: round64_def)

lemma round64_nonpos: "q \<le> 0 \<Longrightarrow> fle (round64 q) (Fin 0)"
  using round64_mono [of q 0] by (simp add: round64_def)

lemma fadd_mono_right:
  assumes "fle x y" and "z = NegZero \<or> (\<exists>a. z = Fin a)"
  shows "fle (fadd z x) (fadd z y)"
  using assms
  by (cases x; cases y; cases z)
     (auto simp: round64_mono round64_nonneg round64_nonpos fle_NegZero_left fle_NegZero_right)

lemma fadd_mono_left:
  assumes "fle x y" and "x = NegZero \<or> (\<exists>a. x = Fin a)" and "y = NegZero \<or> (\<exists>a. y = Fin a)"
  shows "fle (fadd x t) (fadd y t) \<or> (fadd x t = NaN \<and> fadd y t = NaN)"
  using assms
  by (cases x; cases y; cases t)
     (auto simp: round64_mono round64_nonneg round64_nonpos fle_NegZero_left fle_NegZero_right)

lemma round_decimal_mono: "q1 \<le> q2 \<Longrightarrow> round_decimal q1 n \<le> round_decimal q2 n"
proof -
  assume "q1 \<le> q2"
  then have "q1 * 10 ^ n \<le> q2 * 10 ^ n" by simp
  then have "round_half_even (q1 * 10 ^ n) \<le> round_half_even (q2 * 10 ^ n)"
    by (rule round_half_even_mono)
  then have "(of_int (round_half_even (q1 * 10 ^ n)) :: rat) \<le> of_int (round_half_even (q2 * 10 ^ n))"
    by (simp only: of_int_le_iff)
  then show ?thesis by (simp add: round_decimal_def divide_right_mono)
qed

lemma NaN_not_round64 [simp]: "NaN \<noteq> round64 q"
  using round64_not_NaN [of q] by (rule not_sym)

lemma round64_0 [simp]: "round64 0 = Fin 0"
  by (simp add: round64_def)

lemma round_decimal_0 [simp]: "round_decimal 0 n = 0"
  by (simp add: round_decimal_def round_half_even_def)

lemma py_round_Fin:
  assumes "py_round (Fin q) n = Inr r" and "n \<le> 323"
  shows "r = round64 (round_decimal q n) \<or> (round_decimal q n = 0 \<and> r = NegZero)"
  using assms
  by (auto simp: py_round_def Let_def round64_def split: if_splits pyfloat.splits)

lemma py_round_other:
  "x = NegZero \<or> x = PosInf \<or> x = NegInf \<or> x = NaN \<Longrightarrow> py_round x n = Inr x"
  by (auto simp: py_round_def)

lemma py_round_mono:
  assumes xy: "fle x y \<or> (x = NaN \<and> y = NaN)"
    and rx: "py_round x n = Inr rx" and ry: "py_round y n = Inr ry" and n: "n \<le> 323"
  shows "fle rx ry \<or> (rx = NaN \<and> ry = NaN)"
proof (cases x)
  case (Fin q1)
  note x = Fin
  from py_round_Fin [OF rx [unfolded x] n]
  have rx': "\<And>v. fle rx v = fle (round64 (round_decimal q1 n)) v"
    by (auto simp: fle_NegZero_left)
  from py_round_Fin [OF rx [unfolded x] n] have rxn: "rx \<noteq> NaN"
    by auto
  show ?thesis
  proof (cases y)
    case (Fin q2)
    from py_round_Fin [OF ry [unfolded Fin] n]
    have ry': "\<And>v. fle v ry = fle v (round64 (round_decimal q2 n))"
      by (auto simp: fle_NegZero_right)
    have "q1 \<le> q2" using xy x Fin by simp
    then show ?thesis by (simp add: rx' ry' round64_mono round_decimal_mono)
  next
    case NegZero
    then have "ry = NegZero" using ry by (simp add: py_round_def)
    moreover have "round_decimal q1 n \<le> 0"
      using xy x NegZero round_decimal_mono [of q1 0 n] by simp
    ultimately show ?thesis by (simp add: rx' fle_NegZero_right round64_nonpos)
  next
    case PosInf
    then have "ry = PosInf" using ry by (simp add: py_round_def)
    then show ?thesis by (simp add: rxn)
  next
    case NegInf
    then show ?thesis using xy x by simp
  next
    case NaN
    then show ?thesis using xy x by simp
  qed
next
  case NegZero
  then have rx': "rx = NegZero" using rx by (simp add: py_round_def)
  show ?thesis
  proof (cases y)
    case (Fin q2)
    from py_round_Fin [OF ry [unfolded Fin] n]
    have ry': "\<And>v. fle v ry = fle v (round64 (round_decimal q2 n))"
      by (auto simp: fle_NegZero_right)
    have "0 \<le> round_decimal q2 n"
      using xy NegZero Fin round_decimal_mono [of 0 q2 n] by simp
    then show ?thesis by (simp add: rx' ry' fle_NegZero_left round64_nonneg)
  qed (use xy NegZero ry rx' in \<open>auto simp: py_round_def\<close>)
next
  case PosInf
  then show ?thesis using xy rx ry by (cases y) (auto simp: py_round_def)
next
  case NegInf
  then have rx': "rx = NegInf" using rx by (simp add: py_round_def)
  show ?thesis
  proof (cases y)
    case (Fin q2)
    from py_round_Fin [OF ry [unfolded Fin] n] show ?thesis by (auto simp: rx')
  qed (use xy NegInf ry rx' in \<open>auto simp: py_round_def\<close>)
next
  case NaN
  then show ?thesis using xy rx ry by (auto simp: py_round_def)
qed

lemma int_true_div_Inr:
  assumes "int_true_div a b = Inr f"
  shows "f = round64 (of_int a / of_int b) \<and> (f = NegZero \<or> (\<exists>q. f = Fin q))"
  using assms by (cases "round64 (of_int a / of_int b)") (auto simp: int_true_div_def)

lemma int_true_div_mono:
  assumes "int_true_div a1 b = Inr f1" and "int_true_div a2 b = Inr f2" and "a1 \<le> a2" and "0 < b"
  shows "fle f1 f2"
proof -
  have "(of_int a1 :: rat) / of_int b \<le> of_int a2 / of_int b"
    using assms(3,4) by (simp add: divide_right_mono)
  then show ?thesis
    using int_true_div_Inr [OF assms(1)] int_true_div_Inr [OF assms(2)] round64_mono by simp
qed

subsection \<open>Integers up to \<open>2\<^sup>5\<^sup>3\<close> are floats\<close>

lemma round_magnitude_exact:
  assumes "a / pow2 (float_exponent a) = of_int k"
  shows "round_magnitude a = a"
proof -
  have nz: "pow2 (float_exponent a) \<noteq> 0" using pow2_pos [of "float_exponent a"] by simp
  have "round_magnitude a = of_int k * pow2 (float_exponent a)"
    by (simp add: round_magnitude_def assms)
  also have "\<dots> = a / pow2 (float_exponent a) * pow2 (float_exponent a)"
    by (simp only: assms)
  also have "\<dots> = a" using nz by simp
  finally show ?thesis .
qed

lemma float_exponent_small_int:
  assumes "0 < n" and "n < 2 ^ 53"
  shows "float_exponent (of_int n) \<le> 0"
proof -
  have pos: "(0::rat) < of_int n" using assms(1) by simp
  have "pow2 (ilog2 (of_int n)) \<le> of_int n" using ilog2_bounds [OF pos] by simp
  also have "(of_int n :: rat) < of_int (2 ^ 53)" using assms(2) by (simp only: of_int_less_iff)
  also have "(of_int (2 ^ 53) :: rat) = pow2 53" by (simp add: pow2_53)
  finally have "ilog2 (of_int n) < 53" by (rule pow2_less_cancel)
  then show ?thesis by (simp add: float_exponent_def)
qed

lemma round_magnitude_small_int:
  assumes "0 < n" and "n < 2 ^ 53"
  shows "round_magnitude (of_int n) = of_int n"
proof -
  define e where "e = float_exponent (of_int n :: rat)"
  have e: "e \<le> 0" using float_exponent_small_int [OF assms] by (simp add: e_def)
  have "(of_int n :: rat) / pow2 e = of_int (n * 2 ^ nat (- e))"
  proof (cases "e = 0")
    case True then show ?thesis by (simp add: pow2_def)
  next
    case False
    then have "e < 0" using e by simp
    then show ?thesis by (simp add: pow2_def)
  qed
  then show ?thesis unfolding e_def by (rule round_magnitude_exact)
qed

lemma round64_2p53: "round64 (2 ^ 53) = Fin (2 ^ 53)"
  by code_simp

lemma round64_m2p53: "round64 (- (2 ^ 53)) = Fin (- (2 ^ 53))"
  by code_simp

lemma round64_of_int:
  assumes "\<bar>n\<bar> \<le> 2 ^ 53"
  shows "round64 (of_int n) = Fin (of_int n)"
proof -
  have big: "(2::rat) ^ 53 < 2 ^ 1024" by simp
  consider "n = 0" | "n = 2 ^ 53" | "n = - (2 ^ 53)" | "0 < n" "n < 2 ^ 53" | "n < 0" "- n < 2 ^ 53"
    using assms by linarith
  then show ?thesis
  proof cases
    case 1 then show ?thesis by simp
  next
    case 2 then show ?thesis using round64_2p53 by simp
  next
    case 3 then show ?thesis using round64_m2p53 by simp
  next
    case 4
    have r: "round_magnitude (of_int n) = of_int n" using 4 by (rule round_magnitude_small_int)
    have "(of_int n :: rat) < of_int (2 ^ 53)" using 4(2) by (simp only: of_int_less_iff)
    then have "\<not> (2::rat) ^ 1024 \<le> of_int n" using big by simp
    then show ?thesis using 4(1) by (simp add: round64_pos r)
  next
    case 5
    have r: "round_magnitude (of_int (- n)) = of_int (- n)"
      using 5 by (intro round_magnitude_small_int) simp_all
    have "(of_int (- n) :: rat) < of_int (2 ^ 53)" using 5(2) by (simp only: of_int_less_iff)
    then have "\<not> (2::rat) ^ 1024 \<le> of_int (- n)" using big by simp
    then show ?thesis using 5(1) r by (simp add: round64_neg)
  qed
qed

section \<open>The validator\<close>

text \<open>
  C4. For every message the schema predicate accepts, \<^verbatim>\<open>validate_input_message\<close>
  returns that message itself, unchanged.
\<close>

theorem validate_input_message_identity:
  "validate_message_schema m \<Longrightarrow>
   snd (validate_input_message validate_message_schema m) = Inr m"
  by (simp add: validate_input_message_def)

theorem validate_input_message_identity_witness:
  "requires_symbol [''symbol'' \<mapsto> PStr ''ABC''] \<and>
   snd (validate_input_message requires_symbol [''symbol'' \<mapsto> PStr ''ABC''])
     = Inr [''symbol'' \<mapsto> PStr ''ABC'']"
  using validate_input_message_identity [of requires_symbol "[''symbol'' \<mapsto> PStr ''ABC'']"]
  by (simp add: requires_symbol_def)

text \<open>
  C5. For every message the schema predicate rejects, \<^verbatim>\<open>validate_input_message\<close>
  returns no value: it raises the invalid-format error, which in the source is
  \<^verbatim>\<open>ValueError("Invalid message format")\<close>.
\<close>

theorem validate_input_message_rejects:
  "\<not> validate_message_schema m \<Longrightarrow>
   snd (validate_input_message validate_message_schema m)
     = Inl (ValueError ''Invalid message format'')"
  by (simp add: validate_input_message_def)

theorem validate_input_message_rejects_witness:
  "\<not> requires_symbol [''avg_volume'' \<mapsto> PInt 1200000] \<and>
   snd (validate_input_message requires_symbol [''avg_volume'' \<mapsto> PInt 1200000])
     = Inl (ValueError ''Invalid message format'')"
  using validate_input_message_rejects [of requires_symbol "[''avg_volume'' \<mapsto> PInt 1200000]"]
  by (simp add: requires_symbol_def)

text \<open>
  C9, as stated, says that the error raised on a rejected message carries that message.
  It does not: two different rejected messages raise the very same error value, so the
  message cannot be read off the error.
\<close>

theorem validation_error_same_for_distinct_messages:
  "\<not> requires_symbol [''avg_volume'' \<mapsto> PInt 1] \<and>
   \<not> requires_symbol [''avg_volume'' \<mapsto> PInt 2] \<and>
   [''avg_volume'' \<mapsto> PInt 1] \<noteq> [''avg_volume'' \<mapsto> PInt 2] \<and>
   snd (validate_input_message requires_symbol [''avg_volume'' \<mapsto> PInt 1])
     = snd (validate_input_message requires_symbol [''avg_volume'' \<mapsto> PInt 2])"
proof -
  have "[''avg_volume'' \<mapsto> PInt 1] \<noteq> [''avg_volume'' \<mapsto> PInt 2]"
  proof
    assume "[''avg_volume'' \<mapsto> PInt 1] = [''avg_volume'' \<mapsto> PInt 2]"
    then have "PInt 1 = PInt 2" by (rule map_upd_eqD1)
    then show False by simp
  qed
  then show ?thesis
    by (simp add: validate_input_message_def requires_symbol_def)
qed

text \<open>
  C9, amended. On a rejected message the error raised is a ValueError whose only
  argument is the fixed text \<^verbatim>\<open>Invalid message format\<close>; the offending message is
  the argument of the error-level log record written just before, and of nothing else.
\<close>

theorem validation_error_text_and_log:
  "\<not> validate_message_schema m \<Longrightarrow>
   validate_input_message validate_message_schema m
     = ([(DEBUG, ''Validating message schema...'', []),
         (ERROR, ''Invalid message schema: %s'', [PDict m])],
        Inl (ValueError ''Invalid message format''))"
  by (simp add: validate_input_message_def)

theorem validation_error_text_and_log_witness:
  "\<not> requires_symbol [''avg_volume'' \<mapsto> PInt 7] \<and>
   validate_input_message requires_symbol [''avg_volume'' \<mapsto> PInt 7]
     = ([(DEBUG, ''Validating message schema...'', []),
         (ERROR, ''Invalid message schema: %s'', [PDict [''avg_volume'' \<mapsto> PInt 7]])],
        Inl (ValueError ''Invalid message format''))"
  using validation_error_text_and_log [of requires_symbol "[''avg_volume'' \<mapsto> PInt 7]"]
  by (simp add: requires_symbol_def)

section \<open>The scorer: coercion errors\<close>







end
